theory Spec2Isabelle
  imports Main "HOL-Library.Sublist"
begin

section \<open>The allure reporter's replay state (packages/wdio-allure-reporter/src/state.ts)\<close>

text \<open>
  The class \<open>AllureReportState\<close> keeps an append-only log of runtime messages, answers
  "is something open" from that log alone, and in \<open>processRuntimeMessage\<close> turns the log
  into calls on an allure \<open>ReporterRuntime\<close>. The runtime is a third-party object: it is
  modelled by the list of calls made on it, and its answers by functions of that list.
\<close>

subsection \<open>Messages\<close>

datatype status = Failed | Broken | Passed | Skipped

datatype stage = Scheduled | Running | Finished | Pending | Interrupted

datatype hook_type = Before | After

type_synonym statusDetails = string

type_synonym uuid = string

text \<open>
  Modelled from the spec: \<open>WDIORuntimeMessage\<close> of \<open>types.ts\<close>, which is not among the
  sources: the tagged union of the specification's data model, with the fields that
  \<open>state.ts\<close> reads and that the reporter pushes. It holds the reporter's own seven kinds
  (\<open>allure:suite:start\<close> ... \<open>allure:hook:end\<close>) and allure's runtime messages, whose
  payloads other than those of \<open>step_start\<close> and \<open>step_stop\<close> are opaque here. Optional
  fields are options; timestamps and durations are integers (milliseconds).
\<close>

datatype message =
    SuiteStart string "bool option"
  | SuiteEnd
  | TestStart string int
  | TestInfo string
  | TestEnd status "stage option" "int option" "int option" "statusDetails option"
  | HookStart string hook_type int
  | HookEnd status "statusDetails option" "int option" "int option"
  | StepStart string int
  | StepStop status int "statusDetails option"
  | Metadata string
  | StepMetadata string
  | AttachmentContent string
  | AttachmentPath string

text \<open>The \<open>type\<close> field of a message.\<close>

fun msg_type :: "message \<Rightarrow> string" where
  "msg_type (SuiteStart name feature) = ''allure:suite:start''"
| "msg_type SuiteEnd = ''allure:suite:end''"
| "msg_type (TestStart name start) = ''allure:test:start''"
| "msg_type (TestInfo fullName) = ''allure:test:info''"
| "msg_type (TestEnd st stage stop duration details) = ''allure:test:end''"
| "msg_type (HookStart name ty start) = ''allure:hook:start''"
| "msg_type (HookEnd st details stop duration) = ''allure:hook:end''"
| "msg_type (StepStart name start) = ''step_start''"
| "msg_type (StepStop st stop details) = ''step_stop''"
| "msg_type (Metadata d) = ''metadata''"
| "msg_type (StepMetadata d) = ''step_metadata''"
| "msg_type (AttachmentContent d) = ''attachment_content''"
| "msg_type (AttachmentPath d) = ''attachment_path''"

subsection \<open>The reporter runtime\<close>

text \<open>What \<open>updateTest\<close>'s callback writes into the test result.\<close>

datatype test_update =
    SetFullName string
  | SetResult status "stage option" "statusDetails option"

text \<open>
  One constructor per operation that \<open>state.ts\<close> invokes on \<open>allureRuntime\<close>, with the
  arguments it passes. \<open>StartTest\<close> records the scope stack as it is at the call.
\<close>

datatype call =
    StartScope
  | WriteScope uuid
  | StartTest string int "uuid list"
  | UpdateTest uuid test_update
  | StopTest uuid "int option" "int option"
  | WriteTest uuid
  | StartFixture "uuid option" hook_type string int
  | UpdateFixture uuid status "statusDetails option"
  | StopFixture uuid "int option" "int option"
  | ApplyRuntimeMessages uuid "message list"

text \<open>
  A call returns, throws synchronously, or returns a promise that rejects. (A promise
  that never settles is not modelled: every backend promise settles.)
\<close>

datatype outcome = Returns | Throws | Rejects

text \<open>
  The environment of a replay: how the runtime answers, as a function of all calls made
  so far (the last one being the call answered), and the clock behind \<open>Date.now()\<close>.
\<close>

record env =
  settles :: "call list \<Rightarrow> outcome"
  startScope_ret :: "call list \<Rightarrow> uuid"
  startTest_ret :: "call list \<Rightarrow> uuid"
  startFixture_ret :: "call list \<Rightarrow> uuid option"
  now :: "call list \<Rightarrow> int"

text \<open>A failed replay carries the calls made up to and including the one that failed.\<close>

datatype failure = BackendFailure "call list"

subsection \<open>The state of one \<open>AllureReportState\<close>\<close>

text \<open>
  The stacks are JavaScript arrays used with \<open>push\<close> and \<open>pop\<close>: the top is the last
  element. \<open>allureRuntime\<close> is the log of calls made on the runtime the object holds.
\<close>

record state =
  scopesStack :: "uuid list"
  executablesStack :: "uuid list"
  fixturesStack :: "uuid list"
  currentTestUuid :: "uuid option"
  messages :: "message list"
  openSteps :: int
  allureRuntime :: "call list"

definition new_state :: state where
  "new_state = \<lparr> scopesStack = [], executablesStack = [], fixturesStack = [],
     currentTestUuid = None, messages = [], openSteps = 0, allureRuntime = [] \<rparr>"

text \<open>JavaScript truthiness of a \<open>string | undefined\<close>: defined and not empty.\<close>

definition truthy :: "uuid option \<Rightarrow> bool" where
  "truthy u = (case u of None \<Rightarrow> False | Some h \<Rightarrow> h \<noteq> [])"

text \<open>\<open>Array.prototype.pop\<close>: the last element and the rest; \<open>undefined\<close> on an empty array.\<close>

definition pop :: "'a list \<Rightarrow> 'a option \<times> 'a list" where
  "pop xs = (if xs = [] then (None, []) else (Some (last xs), butlast xs))"

subsection \<open>Helpers of \<open>utils.ts\<close>\<close>

text \<open>
  Modelled from the spec: the loop of \<open>findLastIndex\<close> of \<open>utils.ts\<close>, which is not among
  the sources. It is the backward search of the specification: from index \<open>n - 1\<close> down
  to \<open>0\<close>, the first index whose element satisfies the predicate, and \<open>-1\<close> when the
  search runs out.
\<close>

fun scan_back :: "'a list \<Rightarrow> ('a \<Rightarrow> bool) \<Rightarrow> nat \<Rightarrow> int" where
  "scan_back xs p 0 = - 1"
| "scan_back xs p (Suc i) = (if p (xs ! i) then int i else scan_back xs p i)"

text \<open>
  Modelled from the spec: \<open>findLastIndex\<close> of \<open>utils.ts\<close>, which is not among the sources:
  the last index whose element satisfies the predicate, searched backward from the end
  of the array; \<open>-1\<close> when there is none.
\<close>

definition findLastIndex :: "'a list \<Rightarrow> ('a \<Rightarrow> bool) \<Rightarrow> int" where
  "findLastIndex xs p = scan_back xs p (length xs)"

text \<open>
  Modelled from the spec: \<open>findLast\<close> of \<open>utils.ts\<close>, which is not among the sources: the
  most recent (last) element that satisfies the predicate, or \<open>undefined\<close>.
\<close>

definition findLast :: "'a list \<Rightarrow> ('a \<Rightarrow> bool) \<Rightarrow> 'a option" where
  "findLast xs p = (let i = findLastIndex xs p in if i < 0 then None else Some (xs ! nat i))"

text \<open>
  Modelled from the spec: \<open>last\<close> of \<open>utils.ts\<close>, which is not among the sources: the top
  of a stack, that is the last element of the array, or \<open>undefined\<close> when it is empty.
\<close>

definition last_elem :: "'a list \<Rightarrow> 'a option" where
  "last_elem xs = (if xs = [] then None else Some (last xs))"

subsection \<open>Pending predicates and \<open>currentFeature\<close>\<close>

text \<open>The four getters (lines 35-57).\<close>

definition hasPendingSuite :: "state \<Rightarrow> bool" where
  "hasPendingSuite s =
     (let s' = findLastIndex (messages s) (\<lambda>m. msg_type m = ''allure:suite:start'');
          e = findLastIndex (messages s) (\<lambda>m. msg_type m = ''allure:suite:end'')
      in s' > e)"

definition hasPendingTest :: "state \<Rightarrow> bool" where
  "hasPendingTest s =
     (let s' = findLastIndex (messages s) (\<lambda>m. msg_type m = ''allure:test:start'');
          e = findLastIndex (messages s) (\<lambda>m. msg_type m = ''allure:test:end'')
      in s' > e)"

definition hasPendingStep :: "state \<Rightarrow> bool" where
  "hasPendingStep s =
     (let s' = findLastIndex (messages s) (\<lambda>m. msg_type m = ''step_start'');
          e = findLastIndex (messages s) (\<lambda>m. msg_type m = ''step_stop'')
      in s' > e)"

definition hasPendingHook :: "state \<Rightarrow> bool" where
  "hasPendingHook s =
     (let s' = findLastIndex (messages s) (\<lambda>m. msg_type m = ''allure:hook:start'');
          e = findLastIndex (messages s) (\<lambda>m. msg_type m = ''allure:hook:end'')
      in s' > e)"

text \<open>\<open>Boolean(data.feature)\<close> of a suite-start payload, and its \<open>data.name\<close>.\<close>

fun feature_flag :: "message \<Rightarrow> bool" where
  "feature_flag (SuiteStart name feature) = (feature = Some True)"
| "feature_flag m = False"

fun data_name :: "message \<Rightarrow> string option" where
  "data_name (SuiteStart name feature) = Some name"
| "data_name (TestStart name start) = Some name"
| "data_name (HookStart name ty start) = Some name"
| "data_name (StepStart name start) = Some name"
| "data_name m = None"

text \<open>The getter \<open>currentFeature\<close> (lines 59-65).\<close>

definition currentFeature :: "state \<Rightarrow> string option" where
  "currentFeature s =
     (case findLast (messages s)
             (\<lambda>m. msg_type m = ''allure:suite:start'' \<and> feature_flag m) of
        None \<Rightarrow> None
      | Some m \<Rightarrow> data_name m)"

text \<open>\<open>pushRuntimeMessage\<close> (lines 174-176).\<close>

definition pushRuntimeMessage :: "message \<Rightarrow> state \<Rightarrow> state" where
  "pushRuntimeMessage message s = s\<lparr>messages := messages s @ [message]\<rparr>"

subsection \<open>Calls on the runtime\<close>

text \<open>Sequencing inside an \<open>async\<close> method: a failure ends the method.\<close>

definition andThen :: "failure + 'a \<Rightarrow> ('a \<Rightarrow> failure + 'b) \<Rightarrow> failure + 'b" where
  "andThen m f = (case m of Inl e \<Rightarrow> Inl e | Inr x \<Rightarrow> f x)"

text \<open>
  A call whose result is not awaited (\<open>startScope\<close>, \<open>startTest\<close>, \<open>updateTest\<close>,
  \<open>startFixture\<close>, \<open>updateFixture\<close>, and \<open>applyRuntimeMessages\<close> at line 27): only a
  synchronous throw reaches the caller; a rejected promise is dropped and the caller
  goes on.
\<close>

definition invoke :: "env \<Rightarrow> call \<Rightarrow> state \<Rightarrow> failure + state" where
  "invoke env c s =
     (let h = allureRuntime s @ [c]
      in if settles env h = Throws then Inl (BackendFailure h)
         else Inr (s\<lparr>allureRuntime := h\<rparr>))"

text \<open>
  An awaited call (\<open>writeScope\<close>, \<open>writeTest\<close>, \<open>stopTest\<close>, \<open>stopFixture\<close>, and
  \<open>applyRuntimeMessages\<close> at line 222): a throw and a rejection both reach the caller.
\<close>

definition await :: "env \<Rightarrow> call \<Rightarrow> state \<Rightarrow> failure + state" where
  "await env c s =
     (let h = allureRuntime s @ [c]
      in if settles env h = Returns then Inr (s\<lparr>allureRuntime := h\<rparr>)
         else Inl (BackendFailure h))"

subsection \<open>The private methods\<close>

text \<open>
  The loop of \<open>_closeOpenedSteps\<close>. The result is \<open>None\<close> when the loop does not return,
  \<open>Some (Inl f)\<close> when a call fails, \<open>Some (Inr s)\<close> with the state it leaves otherwise.
  \<open>applyRuntimeMessages\<close> is not awaited here. The loop does not change the current
  test, whose handle \<open>t\<close> is passed in.
\<close>

partial_function (option) closeOpenedSteps_loop ::
  "env \<Rightarrow> uuid \<Rightarrow> status \<Rightarrow> int option \<Rightarrow> state \<Rightarrow> (failure + state) option" where
  "closeOpenedSteps_loop env t st stop s =
     (if openSteps s > 0 then
        (case invoke env
                (ApplyRuntimeMessages t
                   [StepStop st (case stop of Some x \<Rightarrow> x | None \<Rightarrow> now env (allureRuntime s)) None]) s of
           Inl f \<Rightarrow> Some (Inl f)
         | Inr s' \<Rightarrow> closeOpenedSteps_loop env t st stop (s'\<lparr>openSteps := openSteps s' - 1\<rparr>))
      else Some (Inr s))"

declare closeOpenedSteps_loop.simps [code]

text \<open>\<open>_closeOpenedSteps\<close> (lines 24-33): the guard on the current test, then the loop.\<close>

definition closeOpenedSteps ::
  "env \<Rightarrow> status \<Rightarrow> int option \<Rightarrow> state \<Rightarrow> (failure + state) option" where
  "closeOpenedSteps env st stop s =
     (case currentTestUuid s of
        None \<Rightarrow> Some (Inr s)
      | Some t \<Rightarrow> if t = [] then Some (Inr s) else closeOpenedSteps_loop env t st stop s)"

text \<open>\<open>_openScope\<close> (lines 67-70).\<close>

definition openScope :: "env \<Rightarrow> state \<Rightarrow> failure + state" where
  "openScope env s =
     andThen (invoke env StartScope s)
       (\<lambda>s1. Inr (s1\<lparr>scopesStack := scopesStack s1 @ [startScope_ret env (allureRuntime s1)]\<rparr>))"

text \<open>\<open>_closeScope\<close> (lines 72-77): the scope popped is written when it is truthy.\<close>

definition closeScope :: "env \<Rightarrow> state \<Rightarrow> failure + state" where
  "closeScope env s =
     (case pop (scopesStack s) of
        (scopeUuid, rest) \<Rightarrow>
          (let s1 = s\<lparr>scopesStack := rest\<rparr>
           in case scopeUuid of
                None \<Rightarrow> Inr s1
              | Some u \<Rightarrow> if u = [] then Inr s1 else await env (WriteScope u) s1))"

text \<open>\<open>_writeLastTest\<close> (lines 79-84).\<close>

definition writeLastTest :: "env \<Rightarrow> state \<Rightarrow> failure + state" where
  "writeLastTest env s =
     (case currentTestUuid s of
        None \<Rightarrow> Inr s
      | Some t \<Rightarrow>
          if t = [] then Inr s
          else andThen (closeScope env s)
                 (\<lambda>s1. andThen (await env (WriteTest t) s1)
                    (\<lambda>s2. Inr (s2\<lparr>currentTestUuid := None\<rparr>))))"

text \<open>\<open>_startSuite\<close> (lines 86-91).\<close>

definition startSuite :: "env \<Rightarrow> state \<Rightarrow> failure + state" where
  "startSuite env s =
     andThen (if truthy (currentTestUuid s) then writeLastTest env s else Inr s)
       (openScope env)"

text \<open>\<open>_endSuite\<close> (lines 93-98).\<close>

definition endSuite :: "env \<Rightarrow> bool \<Rightarrow> state \<Rightarrow> failure + state" where
  "endSuite env write s =
     andThen (closeScope env s)
       (\<lambda>s1. if write then writeLastTest env s1 else Inr s1)"

text \<open>\<open>_startTest\<close> (lines 100-118).\<close>

definition startTest :: "env \<Rightarrow> string \<Rightarrow> int \<Rightarrow> state \<Rightarrow> failure + state" where
  "startTest env name start s =
     andThen (if truthy (currentTestUuid s) then writeLastTest env s else Inr s)
       (\<lambda>s1. andThen (openScope env s1)
          (\<lambda>s2. andThen (invoke env (StartTest name start (scopesStack s2)) s2)
             (\<lambda>s3. let testUuid = startTest_ret env (allureRuntime s3)
                    in Inr (s3\<lparr>executablesStack := executablesStack s3 @ [testUuid],
                                currentTestUuid := Some testUuid,
                                openSteps := 0\<rparr>))))"

text \<open>\<open>_addTestInfo\<close> (lines 120-127).\<close>

definition addTestInfo :: "env \<Rightarrow> string \<Rightarrow> state \<Rightarrow> failure + state" where
  "addTestInfo env fullName s =
     (case last_elem (executablesStack s) of
        None \<Rightarrow> Inr s
      | Some testUuid \<Rightarrow>
          if testUuid = [] then Inr s
          else invoke env (UpdateTest testUuid (SetFullName fullName)) s)"

text \<open>
  \<open>_endTest\<close> (lines 129-146). The popped handle stays popped when the method returns
  early.
\<close>

definition endTest ::
  "env \<Rightarrow> status \<Rightarrow> stage option \<Rightarrow> int option \<Rightarrow> int option \<Rightarrow> statusDetails option \<Rightarrow>
   bool \<Rightarrow> state \<Rightarrow> (failure + state) option" where
  "endTest env st stage stop duration details write s =
     (case pop (executablesStack s) of
        (popped, rest) \<Rightarrow>
          (let s0 = s\<lparr>executablesStack := rest\<rparr>
           in case popped of
                None \<Rightarrow> Some (Inr s0)
              | Some testUuid \<Rightarrow>
                  if testUuid = [] then Some (Inr s0)
                  else (case closeOpenedSteps env st stop s0 of
                          None \<Rightarrow> None
                        | Some (Inl f) \<Rightarrow> Some (Inl f)
                        | Some (Inr s1) \<Rightarrow>
                            Some (andThen (invoke env (UpdateTest testUuid (SetResult st stage details)) s1)
                              (\<lambda>s2. andThen (await env (StopTest testUuid stop duration) s2)
                                 (\<lambda>s3. if write then writeLastTest env s3 else Inr s3))))))"

text \<open>
  The test \<open>/after all/i.test(name)\<close>: some substring of the name equals \<open>after all\<close> up
  to the case of ASCII letters (without the \<open>u\<close> flag no other character folds onto an
  ASCII letter). \<open>lower\<close> is the character code with \<open>A\<close>..\<open>Z\<close> folded onto \<open>a\<close>..\<open>z\<close>.
\<close>

definition lower :: "char \<Rightarrow> nat" where
  "lower c = (let n = (of_char c :: nat) in if 65 \<le> n \<and> n \<le> 90 then n + 32 else n)"

fun matches_at :: "string \<Rightarrow> string \<Rightarrow> bool" where
  "matches_at [] cs = True"
| "matches_at (p # ps) [] = False"
| "matches_at (p # ps) (c # cs) = (lower c = lower p \<and> matches_at ps cs)"

fun regex_test :: "string \<Rightarrow> string \<Rightarrow> bool" where
  "regex_test pat [] = matches_at pat []"
| "regex_test pat (c # cs) = (matches_at pat (c # cs) \<or> regex_test pat cs)"

definition after_all :: "string \<Rightarrow> bool" where
  "after_all name = regex_test ''after all'' name"

text \<open>\<open>_startHook\<close> (lines 148-160).\<close>

definition startHook :: "env \<Rightarrow> string \<Rightarrow> hook_type \<Rightarrow> int \<Rightarrow> state \<Rightarrow> failure + state" where
  "startHook env name ty start s =
     andThen (if after_all name \<and> truthy (currentTestUuid s) then writeLastTest env s else Inr s)
       (\<lambda>s1. let scopeUuid = last_elem (scopesStack s1)
              in andThen (invoke env (StartFixture scopeUuid ty name start) s1)
                   (\<lambda>s2. case startFixture_ret env (allureRuntime s2) of
                            None \<Rightarrow> Inr s2
                          | Some hookUuid \<Rightarrow>
                              if hookUuid = [] then Inr s2
                              else Inr (s2\<lparr>fixturesStack := fixturesStack s2 @ [hookUuid]\<rparr>)))"

text \<open>\<open>_endHook\<close> (lines 162-172).\<close>

definition endHook ::
  "env \<Rightarrow> status \<Rightarrow> statusDetails option \<Rightarrow> int option \<Rightarrow> int option \<Rightarrow> state \<Rightarrow> failure + state" where
  "endHook env st details duration stop s =
     (case pop (fixturesStack s) of
        (popped, rest) \<Rightarrow>
          (let s0 = s\<lparr>fixturesStack := rest\<rparr>
           in case popped of
                None \<Rightarrow> Inr s0
              | Some hookUuid \<Rightarrow>
                  if hookUuid = [] then Inr s0
                  else andThen (invoke env (UpdateFixture hookUuid st details) s0)
                         (await env (StopFixture hookUuid stop duration))))"

subsection \<open>\<open>processRuntimeMessage\<close>\<close>

text \<open>
  The part of the loop body below the \<open>switch\<close>, reached by every message kind that the
  \<open>switch\<close> does not handle.
\<close>

definition applyToCurrentTest :: "env \<Rightarrow> message \<Rightarrow> state \<Rightarrow> failure + state" where
  "applyToCurrentTest env message s =
     (case currentTestUuid s of
        None \<Rightarrow> Inr s
      | Some t \<Rightarrow>
          if t = [] then Inr s
          else (let s1 = (if msg_type message = ''step_start''
                          then s\<lparr>openSteps := openSteps s + 1\<rparr> else s);
                    s2 = (if msg_type message = ''step_stop''
                          then s1\<lparr>openSteps := max 0 (openSteps s1 - 1)\<rparr> else s1)
                in await env (ApplyRuntimeMessages t [message]) s2))"

text \<open>One iteration of the \<open>for\<close> loop: the \<open>switch\<close> on the message's type.\<close>

fun processMessage :: "env \<Rightarrow> message \<Rightarrow> bool \<Rightarrow> state \<Rightarrow> (failure + state) option" where
  "processMessage env (SuiteStart name feature) lastMessage s = Some (startSuite env s)"
| "processMessage env SuiteEnd lastMessage s = Some (endSuite env lastMessage s)"
| "processMessage env (TestStart name start) lastMessage s = Some (startTest env name start s)"
| "processMessage env (TestInfo fullName) lastMessage s = Some (addTestInfo env fullName s)"
| "processMessage env (TestEnd st stage stop duration details) lastMessage s =
     endTest env st stage stop duration details lastMessage s"
| "processMessage env (HookStart name ty start) lastMessage s = Some (startHook env name ty start s)"
| "processMessage env (HookEnd st details stop duration) lastMessage s =
     Some (endHook env st details duration stop s)"
| "processMessage env message lastMessage s = Some (applyToCurrentTest env message s)"

text \<open>The \<open>for\<close> loop over \<open>this.messages\<close>, from index \<open>i\<close> on.\<close>

partial_function (option) messages_loop :: "env \<Rightarrow> nat \<Rightarrow> state \<Rightarrow> (failure + state) option" where
  "messages_loop env i s =
     (if i < length (messages s) then
        (case processMessage env (messages s ! i) (i = length (messages s) - 1) s of
           None \<Rightarrow> None
         | Some r \<Rightarrow> (case r of Inl f \<Rightarrow> Some (Inl f) | Inr s' \<Rightarrow> messages_loop env (i + 1) s'))
      else Some (Inr s))"

declare messages_loop.simps [code]

text \<open>The final \<open>while (this._scopesStack.length > 0)\<close> loop.\<close>

partial_function (option) closeScopes_loop :: "env \<Rightarrow> state \<Rightarrow> (failure + state) option" where
  "closeScopes_loop env s =
     (if length (scopesStack s) > 0 then
        (case closeScope env s of
           Inl f \<Rightarrow> Some (Inl f)
         | Inr s' \<Rightarrow> closeScopes_loop env s')
      else Some (Inr s))"

declare closeScopes_loop.simps [code]

text \<open>
  \<open>processRuntimeMessage\<close> (lines 178-231): the loop over the messages, the write of a
  test that is still current, and the loop that closes the scopes left.
\<close>

definition processRuntimeMessage :: "env \<Rightarrow> state \<Rightarrow> (failure + state) option" where
  "processRuntimeMessage env s =
     (case messages_loop env 0 s of
        None \<Rightarrow> None
      | Some r \<Rightarrow>
          (case r of
             Inl f \<Rightarrow> Some (Inl f)
           | Inr s1 \<Rightarrow>
               (case (if truthy (currentTestUuid s1) then writeLastTest env s1 else Inr s1) of
                  Inl f \<Rightarrow> Some (Inl f)
                | Inr s2 \<Rightarrow> closeScopes_loop env s2)))"

text \<open>
  The messages \<open>ms\<close> processed in order, each once, as successive iterations of the \<open>for\<close>
  loop process them; \<open>followed\<close> tells whether the log goes on after \<open>ms\<close> (then none of
  them is the last message).
\<close>

fun process_list :: "env \<Rightarrow> message list \<Rightarrow> bool \<Rightarrow> state \<Rightarrow> (failure + state) option" where
  "process_list env [] followed s = Some (Inr s)"
| "process_list env (m # ms) followed s =
     (case processMessage env m (ms = [] \<and> \<not> followed) s of
        None \<Rightarrow> None
      | Some r \<Rightarrow> (case r of Inl f \<Rightarrow> Some (Inl f) | Inr s' \<Rightarrow> process_list env ms followed s'))"

text \<open>The calls that \<open>_closeScope\<close> makes in a state: one \<open>writeScope\<close> for a truthy top scope.\<close>

definition closeScope_calls :: "state \<Rightarrow> call list" where
  "closeScope_calls s =
     (case last_elem (scopesStack s) of
        None \<Rightarrow> []
      | Some u \<Rightarrow> if u = [] then [] else [WriteScope u])"

subsection \<open>What the claims count in a log of calls\<close>

fun is_writeScope :: "call \<Rightarrow> bool" where
  "is_writeScope (WriteScope u) = True"
| "is_writeScope c = False"

fun is_writeTest :: "call \<Rightarrow> bool" where
  "is_writeTest (WriteTest u) = True"
| "is_writeTest c = False"

text \<open>The messages handed to \<open>applyRuntimeMessages\<close> for a given test, in order.\<close>

fun applied_to :: "uuid \<Rightarrow> call list \<Rightarrow> message list" where
  "applied_to t [] = []"
| "applied_to t (ApplyRuntimeMessages u ms # cs) =
     (if u = t then ms @ applied_to t cs else applied_to t cs)"
| "applied_to t (c # cs) = applied_to t cs"

text \<open>
  The last index of a message kind as the specification words it: the greatest index
  holding a message of that kind, and \<open>-1\<close> when the log holds none.
\<close>

definition spec_last_index :: "string \<Rightarrow> message list \<Rightarrow> int" where
  "spec_last_index kind ms =
     (let hits = filter (\<lambda>i. msg_type (ms ! i) = kind) [0..<length ms]
      in if hits = [] then - 1 else int (Max (set hits)))"

text \<open>
  "A start exists with no later end", in the specification's words: some index holds a
  message of the start kind and no message after it is of the end kind.
\<close>

definition spec_pending :: "string \<Rightarrow> string \<Rightarrow> message list \<Rightarrow> bool" where
  "spec_pending start_kind end_kind ms =
     list_ex (\<lambda>i. msg_type (ms ! i) = start_kind
                  \<and> \<not> list_ex (\<lambda>m. msg_type m = end_kind) (drop (Suc i) ms))
       [0..<length ms]"

text \<open>
  The calls made on the runtime when an operation has finished: those the failure
  carries, or those recorded in the state it returns.
\<close>

definition trace_of :: "failure + state \<Rightarrow> call list" where
  "trace_of r = (case r of Inl (BackendFailure h) \<Rightarrow> h | Inr s \<Rightarrow> allureRuntime s)"

subsection \<open>Sample environments\<close>

text \<open>
  A runtime on which every call returns, with a fresh handle for every scope, test and
  fixture (the count of calls so far in unary), and which declines to start a fixture
  when it is given no scope.
\<close>

definition fresh :: "string \<Rightarrow> call list \<Rightarrow> uuid" where
  "fresh tag h = tag @ replicate (length h) (CHR ''i'')"

definition sample_env :: env where
  "sample_env =
     \<lparr> settles = (\<lambda>h. Returns),
       startScope_ret = fresh ''scope-'',
       startTest_ret = fresh ''test-'',
       startFixture_ret =
         (\<lambda>h. case last_elem h of
                 Some (StartFixture None ty name start) \<Rightarrow> None
               | _ \<Rightarrow> Some (fresh ''fixture-'' h)),
       now = (\<lambda>h. int (length h)) \<rparr>"

text \<open>The same runtime, except that the promise of applying a \<open>step_stop\<close> rejects.\<close>

definition rejecting_env :: env where
  "rejecting_env =
     sample_env
       \<lparr> settles :=
           (\<lambda>h. case last_elem h of
                   Some (ApplyRuntimeMessages t [StepStop st stop details]) \<Rightarrow> Rejects
                 | _ \<Rightarrow> Returns) \<rparr>"

text \<open>
  The state in which \<open>sample_env\<close> is after the messages test-start, step-start,
  step-start of a longer log: one test is open, with two open steps.
\<close>

definition open_test_state :: state where
  "open_test_state =
     \<lparr> scopesStack = [''scope-i''], executablesStack = [''test-ii''], fixturesStack = [],
       currentTestUuid = Some ''test-ii'',
       messages = [TestStart ''A'' 0, StepStart ''a'' 1, StepStart ''b'' 2, SuiteEnd],
       openSteps = 2,
       allureRuntime =
         [StartScope, StartTest ''A'' 0 [''scope-i''],
          ApplyRuntimeMessages ''test-ii'' [StepStart ''a'' 1],
          ApplyRuntimeMessages ''test-ii'' [StepStart ''b'' 2]] \<rparr>"

section \<open>Basic facts\<close>

lemma andThen_simps [simp]:
  "andThen (Inl e) f = Inl e"
  "andThen (Inr x) f = f x"
  by (simp_all add: andThen_def)

lemma pop_Nil [simp]: "pop [] = (None, [])"
  by (simp add: pop_def)

lemma pop_snoc [simp]: "pop (xs @ [x]) = (Some x, xs)"
  by (simp add: pop_def)

lemma state_stack_same:
  "executablesStack s = [] \<Longrightarrow> s\<lparr>executablesStack := []\<rparr> = s"
  "fixturesStack s = [] \<Longrightarrow> s\<lparr>fixturesStack := []\<rparr> = s"
  by (cases s; simp)+

lemma invoke_Inr: "invoke env c s = Inr s' \<Longrightarrow> s' = s\<lparr>allureRuntime := allureRuntime s @ [c]\<rparr>"
  by (auto simp: invoke_def Let_def split: if_splits)

lemma await_Inr: "await env c s = Inr s' \<Longrightarrow> s' = s\<lparr>allureRuntime := allureRuntime s @ [c]\<rparr>"
  by (auto simp: await_def Let_def split: if_splits)

lemma invoke_Inl: "invoke env c s = Inl f \<Longrightarrow> f = BackendFailure (allureRuntime s @ [c])"
  by (auto simp: invoke_def Let_def split: if_splits)

lemma await_Inl: "await env c s = Inl f \<Longrightarrow> f = BackendFailure (allureRuntime s @ [c])"
  by (auto simp: await_def Let_def split: if_splits)

lemma closeOpenedSteps_loop_stop:
  "\<not> 0 < openSteps s \<Longrightarrow> closeOpenedSteps_loop env t st stop s = Some (Inr s)"
  by (subst closeOpenedSteps_loop.simps) simp

lemma closeOpenedSteps_loop_total: "\<exists>r. closeOpenedSteps_loop env t st stop s = Some r"
proof (induction "nat (openSteps s)" arbitrary: s)
  case 0
  then show ?case by (simp add: closeOpenedSteps_loop_stop)
next
  case (Suc n)
  then have pos: "0 < openSteps s" by linarith
  show ?case
  proof (cases "invoke env (ApplyRuntimeMessages t
      [StepStop st (case stop of Some x \<Rightarrow> x | None \<Rightarrow> now env (allureRuntime s)) None]) s")
    case (Inl f)
    with pos show ?thesis by (subst closeOpenedSteps_loop.simps) simp
  next
    case (Inr s')
    then have "openSteps s' = openSteps s" by (auto dest: invoke_Inr)
    with Suc.hyps(2) have "n = nat (openSteps (s'\<lparr>openSteps := openSteps s' - 1\<rparr>))" by simp
    from Suc.hyps(1) [OF this] Inr pos show ?thesis
      by (subst closeOpenedSteps_loop.simps) simp
  qed
qed

lemma closeOpenedSteps_loop_frame:
  "closeOpenedSteps_loop env t st stop s = Some (Inr s') \<Longrightarrow>
     s' = s\<lparr>openSteps := min 0 (openSteps s), allureRuntime := allureRuntime s'\<rparr>"
proof (induction "nat (openSteps s)" arbitrary: s)
  case 0
  then show ?case by (simp add: closeOpenedSteps_loop_stop min_def)
next
  case (Suc n)
  then have pos: "0 < openSteps s" by linarith
  let ?c = "ApplyRuntimeMessages t
      [StepStop st (case stop of Some x \<Rightarrow> x | None \<Rightarrow> now env (allureRuntime s)) None]"
  show ?case
  proof (cases "invoke env ?c s")
    case (Inl f)
    with pos Suc.prems show ?thesis by (subst (asm) closeOpenedSteps_loop.simps) simp
  next
    case (Inr s1)
    then have s1: "s1 = s\<lparr>allureRuntime := allureRuntime s @ [?c]\<rparr>" by (rule invoke_Inr)
    let ?s2 = "s1\<lparr>openSteps := openSteps s1 - 1\<rparr>"
    from s1 Suc.hyps(2) have n: "n = nat (openSteps ?s2)" by simp
    from Suc.prems Inr pos have "closeOpenedSteps_loop env t st stop ?s2 = Some (Inr s')"
      by (subst (asm) closeOpenedSteps_loop.simps) simp
    from Suc.hyps(1) [OF n this] s1 pos show ?thesis by (simp add: min_def)
  qed
qed


lemma closeScope_Inr:
  "closeScope env s = Inr s' \<Longrightarrow>
     s' = s\<lparr>scopesStack := butlast (scopesStack s), allureRuntime := allureRuntime s'\<rparr>"
  by (auto simp: closeScope_def pop_def Let_def dest!: await_Inr split: if_splits option.splits)

lemma closeScope_messages: "closeScope env s = Inr s' \<Longrightarrow> messages s' = messages s"
  by (drule closeScope_Inr) (cases s, cases s', simp)

lemma openScope_messages: "openScope env s = Inr s' \<Longrightarrow> messages s' = messages s"
  by (auto simp: openScope_def andThen_def dest!: invoke_Inr split: sum.splits)

lemma writeLastTest_messages: "writeLastTest env s = Inr s' \<Longrightarrow> messages s' = messages s"
  by (auto simp: writeLastTest_def andThen_def dest!: await_Inr closeScope_messages
      split: sum.splits option.splits if_splits)

lemma startSuite_messages: "startSuite env s = Inr s' \<Longrightarrow> messages s' = messages s"
  by (auto simp: startSuite_def andThen_def dest!: writeLastTest_messages openScope_messages
      split: sum.splits if_splits)

lemma endSuite_messages: "endSuite env w s = Inr s' \<Longrightarrow> messages s' = messages s"
  by (auto simp: endSuite_def andThen_def dest!: writeLastTest_messages closeScope_messages
      split: sum.splits if_splits)

lemma startTest_messages: "startTest env name start s = Inr s' \<Longrightarrow> messages s' = messages s"
  by (auto simp: startTest_def andThen_def Let_def
      dest!: writeLastTest_messages openScope_messages invoke_Inr
      split: sum.splits if_splits)

lemma addTestInfo_messages: "addTestInfo env fullName s = Inr s' \<Longrightarrow> messages s' = messages s"
  by (auto simp: addTestInfo_def dest!: invoke_Inr split: option.splits if_splits)

lemma closeOpenedSteps_messages:
  "closeOpenedSteps env st stop s = Some (Inr s') \<Longrightarrow> messages s' = messages s"
  by (auto simp: closeOpenedSteps_def dest!: closeOpenedSteps_loop_frame
      split: option.splits if_splits) (cases s, cases s', simp)

lemma endTest_messages:
  "endTest env st stage stop duration details w s = Some (Inr s') \<Longrightarrow> messages s' = messages s"
  by (auto simp: endTest_def pop_def Let_def andThen_def
      dest!: closeOpenedSteps_messages writeLastTest_messages invoke_Inr await_Inr
      split: option.splits if_splits sum.splits)

lemma startHook_messages: "startHook env name ty start s = Inr s' \<Longrightarrow> messages s' = messages s"
  by (auto simp: startHook_def andThen_def Let_def
      dest!: writeLastTest_messages invoke_Inr
      split: sum.splits if_splits option.splits)

lemma endHook_messages: "endHook env st details duration stop s = Inr s' \<Longrightarrow> messages s' = messages s"
  by (auto simp: endHook_def pop_def Let_def andThen_def dest!: invoke_Inr await_Inr
      split: option.splits if_splits sum.splits)

lemma applyToCurrentTest_messages:
  "applyToCurrentTest env m s = Inr s' \<Longrightarrow> messages s' = messages s"
  by (auto simp: applyToCurrentTest_def Let_def dest!: await_Inr split: option.splits if_splits)

lemma processMessage_messages:
  "processMessage env m l s = Some (Inr s') \<Longrightarrow> messages s' = messages s"
  by (cases m)
     (auto dest: startSuite_messages endSuite_messages startTest_messages addTestInfo_messages
        endTest_messages startHook_messages endHook_messages applyToCurrentTest_messages)

lemma closeOpenedSteps_total: "\<exists>r. closeOpenedSteps env st stop s = Some r"
  by (simp add: closeOpenedSteps_def closeOpenedSteps_loop_total split: option.splits)

lemma endTest_total: "\<exists>r. endTest env st stage stop duration details w s = Some r"
proof -
  obtain r where "closeOpenedSteps env st stop (s\<lparr>executablesStack := snd (pop (executablesStack s))\<rparr>) = Some r"
    using closeOpenedSteps_total by blast
  then show ?thesis
    by (auto simp: endTest_def Let_def split: prod.splits option.splits sum.splits)
qed

lemma processMessage_total: "\<exists>r. processMessage env m l s = Some r"
  by (cases m) (simp_all add: endTest_total)


lemma messages_loop_total: "\<exists>r. messages_loop env i s = Some r"
proof (induction "length (messages s) - i" arbitrary: i s)
  case 0
  then show ?case by (subst messages_loop.simps) simp
next
  case (Suc n)
  then have lt: "i < length (messages s)" by linarith
  obtain r where r: "processMessage env (messages s ! i) (i = length (messages s) - 1) s = Some r"
    using processMessage_total by blast
  show ?case
  proof (cases r)
    case (Inl f)
    with r lt show ?thesis by (subst messages_loop.simps) simp
  next
    case (Inr s')
    with r have "messages s' = messages s" by (auto dest: processMessage_messages)
    with Suc.hyps(2) have "n = length (messages s') - (i + 1)" by simp
    from Suc.hyps(1) [OF this] r Inr lt show ?thesis
      by (subst messages_loop.simps) simp
  qed
qed

lemma closeScopes_loop_stop: "scopesStack s = [] \<Longrightarrow> closeScopes_loop env s = Some (Inr s)"
  by (subst closeScopes_loop.simps) simp

lemma closeScopes_loop_total: "\<exists>r. closeScopes_loop env s = Some r"
proof (induction "length (scopesStack s)" arbitrary: s)
  case 0
  then show ?case by (simp add: closeScopes_loop_stop)
next
  case (Suc n)
  from Suc.hyps(2) have ne: "0 < length (scopesStack s)" by auto
  show ?case
  proof (cases "closeScope env s")
    case (Inl f)
    with ne show ?thesis by (subst closeScopes_loop.simps) simp
  next
    case (Inr s')
    then have "scopesStack s' = butlast (scopesStack s)"
      by (drule_tac closeScope_Inr) (cases s, cases s', simp)
    with Suc.hyps(2) have "n = length (scopesStack s')" by simp
    from Suc.hyps(1) [OF this] Inr ne show ?thesis
      by (subst closeScopes_loop.simps) simp
  qed
qed

lemma closeScopes_loop_frame:
  "closeScopes_loop env s = Some (Inr s') \<Longrightarrow>
     s' = s\<lparr>scopesStack := [], allureRuntime := allureRuntime s'\<rparr>"
proof (induction "length (scopesStack s)" arbitrary: s)
  case 0
  then show ?case by (simp add: closeScopes_loop_stop)
next
  case (Suc n)
  from Suc.hyps(2) have ne: "0 < length (scopesStack s)" by auto
  show ?case
  proof (cases "closeScope env s")
    case (Inl f)
    with ne Suc.prems show ?thesis by (subst (asm) closeScopes_loop.simps) simp
  next
    case (Inr s1)
    then have s1: "s1 = s\<lparr>scopesStack := butlast (scopesStack s), allureRuntime := allureRuntime s1\<rparr>"
      by (rule closeScope_Inr)
    then have "scopesStack s1 = butlast (scopesStack s)"
      by (cases s, cases s1, simp)
    with Suc.hyps(2) have n: "n = length (scopesStack s1)" by simp
    from Suc.prems Inr ne have "closeScopes_loop env s1 = Some (Inr s')"
      by (subst (asm) closeScopes_loop.simps) simp
    from Suc.hyps(1) [OF n this] have "s' = s1\<lparr>scopesStack := [], allureRuntime := allureRuntime s'\<rparr>" .
    with s1 show ?thesis by (cases s, cases s1, cases s', simp)
  qed
qed

lemma writeLastTest_current:
  "writeLastTest env s = Inr s' \<Longrightarrow> \<not> truthy (currentTestUuid s')"
  by (auto simp: writeLastTest_def andThen_def truthy_def dest!: await_Inr
      split: sum.splits option.splits if_splits)

lemma messages_loop_process_list:
  "i \<le> length (messages s) \<Longrightarrow>
     messages_loop env i s = process_list env (drop i (messages s)) False s"
proof (induction "length (messages s) - i" arbitrary: i s)
  case 0
  then show ?case by (subst messages_loop.simps) simp
next
  case (Suc n)
  then have lt: "i < length (messages s)" by linarith
  then have dr: "drop i (messages s) = messages s ! i # drop (Suc i) (messages s)"
    by (simp add: Cons_nth_drop_Suc)
  from lt have lastm: "(i = length (messages s) - 1) = (drop (Suc i) (messages s) = [])"
    by auto
  show ?case
  proof (cases "processMessage env (messages s ! i) (i = length (messages s) - 1) s")
    case None
    with lt dr lastm show ?thesis by (subst messages_loop.simps) simp
  next
    case (Some r)
    show ?thesis
    proof (cases r)
      case (Inl f)
      with Some lt dr lastm show ?thesis by (subst messages_loop.simps) simp
    next
      case (Inr s')
      with Some have ms: "messages s' = messages s" by (auto dest: processMessage_messages)
      with Suc.hyps(2) have n: "n = length (messages s') - (i + 1)" by simp
      from lt ms have "i + 1 \<le> length (messages s')" by simp
      from Suc.hyps(1) [OF n this] Some Inr lt dr lastm ms show ?thesis
        by (subst messages_loop.simps) simp
    qed
  qed
qed

lemma open_test_state_reached:
  "process_list sample_env [TestStart ''A'' 0, StepStart ''a'' 1, StepStart ''b'' 2] True
     (new_state\<lparr>messages := [TestStart ''A'' 0, StepStart ''a'' 1, StepStart ''b'' 2, SuiteEnd]\<rparr>)
   = Some (Inr open_test_state)"
  by code_simp

lemma closeScope_trace:
  "closeScope env s = Inr s' \<Longrightarrow>
     s' = s\<lparr>scopesStack := butlast (scopesStack s),
            allureRuntime := allureRuntime s @ closeScope_calls s\<rparr>"
  by (auto simp: closeScope_def closeScope_calls_def last_elem_def pop_def Let_def
      dest!: await_Inr split: if_splits option.splits)

lemma writeLastTest_trace:
  "currentTestUuid s = Some t \<Longrightarrow> t \<noteq> [] \<Longrightarrow> writeLastTest env s = Inr s' \<Longrightarrow>
     s' = s\<lparr>scopesStack := butlast (scopesStack s), currentTestUuid := None,
            allureRuntime := allureRuntime s @ closeScope_calls s @ [WriteTest t]\<rparr>"
  by (auto simp: writeLastTest_def andThen_def dest!: closeScope_trace await_Inr
      split: sum.splits)

lemma writeLastTest_stacks:
  "writeLastTest env s = Inr s' \<Longrightarrow>
     executablesStack s' = executablesStack s \<and> fixturesStack s' = fixturesStack s"
  by (auto simp: writeLastTest_def andThen_def dest!: await_Inr closeScope_trace
      split: sum.splits option.splits if_splits)

lemma closeOpenedSteps_loop_trace:
  "closeOpenedSteps_loop env t st (Some stop) s = Some (Inr s') \<Longrightarrow>
     s' = s\<lparr>openSteps := min 0 (openSteps s),
            allureRuntime := allureRuntime s @
              replicate (nat (openSteps s)) (ApplyRuntimeMessages t [StepStop st stop None])\<rparr>"
proof (induction "nat (openSteps s)" arbitrary: s)
  case 0
  then show ?case by (simp add: closeOpenedSteps_loop_stop min_def)
next
  case (Suc n)
  then have pos: "0 < openSteps s" by linarith
  let ?c = "ApplyRuntimeMessages t [StepStop st stop None]"
  show ?case
  proof (cases "invoke env ?c s")
    case (Inl f)
    with pos Suc.prems show ?thesis by (subst (asm) closeOpenedSteps_loop.simps) simp
  next
    case (Inr s1)
    then have s1: "s1 = s\<lparr>allureRuntime := allureRuntime s @ [?c]\<rparr>" by (rule invoke_Inr)
    let ?s2 = "s1\<lparr>openSteps := openSteps s1 - 1\<rparr>"
    from s1 Suc.hyps(2) have n: "n = nat (openSteps ?s2)" by simp
    from Suc.prems Inr pos have "closeOpenedSteps_loop env t st (Some stop) ?s2 = Some (Inr s')"
      by (subst (asm) closeOpenedSteps_loop.simps) simp
    from Suc.hyps(1) [OF n this] s1 pos Suc.hyps(2) [symmetric] show ?thesis
      by (simp add: min_def replicate_append_same)
  qed
qed

lemma scan_back_append: "n \<le> length xs \<Longrightarrow> scan_back (xs @ ys) p n = scan_back xs p n"
  by (induction n) (auto simp: nth_append)

lemma findLastIndex_snoc:
  "findLastIndex (xs @ [x]) p = (if p x then int (length xs) else findLastIndex xs p)"
  by (simp add: findLastIndex_def scan_back_append)

lemma findLastIndex_Nil [simp]: "findLastIndex [] p = - 1"
  by (simp add: findLastIndex_def)

lemma findLastIndex_bounds: "- 1 \<le> findLastIndex xs p \<and> findLastIndex xs p < int (length xs)"
  by (induction xs rule: rev_induct) (auto simp: findLastIndex_snoc)

lemma findLastIndex_append:
  "findLastIndex (xs @ ys) p =
     (if list_ex p ys then int (length xs) + findLastIndex ys p else findLastIndex xs p)"
proof (induction ys rule: rev_induct)
  case Nil
  then show ?case by simp
next
  case (snoc y ys)
  have "findLastIndex ((xs @ ys) @ [y]) p =
      (if p y then int (length (xs @ ys)) else findLastIndex (xs @ ys) p)"
    by (rule findLastIndex_snoc)
  with snoc show ?case
    by (auto simp: findLastIndex_snoc list_ex_iff)
qed

lemma findLastIndex_spec:
  "findLastIndex ms (\<lambda>m. msg_type m = kind) = spec_last_index kind ms"
proof (induction ms rule: rev_induct)
  case Nil
  then show ?case by (simp add: spec_last_index_def)
next
  case (snoc m ms)
  let ?n = "length ms"
  have flt: "filter (\<lambda>i. msg_type ((ms @ [m]) ! i) = kind) [0..<?n] =
             filter (\<lambda>i. msg_type (ms ! i) = kind) [0..<?n]"
    by (rule filter_cong) (auto simp: nth_append)
  show ?case
  proof (cases "msg_type m = kind")
    case True
    let ?hits = "filter (\<lambda>i. msg_type (ms ! i) = kind) [0..<?n]"
    have "Max (insert ?n (set ?hits)) = ?n"
      by (rule Max_eqI) auto
    with True flt show ?thesis
      by (simp add: findLastIndex_snoc spec_last_index_def)
  next
    case False
    with snoc flt show ?thesis
      by (simp add: findLastIndex_snoc spec_last_index_def)
  qed
qed

lemma findLastIndex_less_iff:
  assumes excl: "\<And>x. p x \<Longrightarrow> \<not> q x"
  shows "(findLastIndex xs q < findLastIndex xs p) =
         list_ex (\<lambda>i. p (xs ! i) \<and> \<not> list_ex q (drop (Suc i) xs)) [0..<length xs]"
proof (induction xs rule: rev_induct)
  case Nil
  then show ?case by simp
next
  case (snoc x xs)
  let ?n = "length xs"
  have bq: "findLastIndex xs q < int ?n" and bp: "findLastIndex xs p < int ?n"
    using findLastIndex_bounds by blast+
  have old: "\<And>i. i < ?n \<Longrightarrow>
      (p ((xs @ [x]) ! i) \<and> \<not> list_ex q (drop (Suc i) (xs @ [x]))) =
      (p (xs ! i) \<and> \<not> list_ex q (drop (Suc i) xs) \<and> \<not> q x)"
    by (auto simp: nth_append list_ex_iff)
  have split: "list_ex (\<lambda>i. p ((xs @ [x]) ! i) \<and> \<not> list_ex q (drop (Suc i) (xs @ [x])))
        [0..<length (xs @ [x])] =
      ((list_ex (\<lambda>i. p (xs ! i) \<and> \<not> list_ex q (drop (Suc i) xs)) [0..<?n] \<and> \<not> q x) \<or> p x)"
    using old by (auto simp: list_ex_iff)
  show ?case
  proof (cases "p x")
    case True
    with excl have "\<not> q x" by blast
    with True bq split show ?thesis by (simp add: findLastIndex_snoc)
  next
    case False
    show ?thesis
    proof (cases "q x")
      case True
      with False bp split show ?thesis by (simp add: findLastIndex_snoc)
    next
      case nq: False
      with False snoc split show ?thesis by (simp add: findLastIndex_snoc)
    qed
  qed
qed

subsection \<open>Calls are only ever appended, and a failure ends the replay\<close>

lemma trace_of_simps [simp]:
  "trace_of (Inl (BackendFailure h)) = h"
  "trace_of (Inr s) = allureRuntime s"
  by (simp_all add: trace_of_def)

lemma trace_andThen:
  assumes "prefix a (trace_of m)"
    and "\<And>s1. m = Inr s1 \<Longrightarrow> prefix (allureRuntime s1) (trace_of (f s1))"
  shows "prefix a (trace_of (andThen m f))"
proof (cases m)
  case (Inl e)
  with assms(1) show ?thesis by simp
next
  case (Inr s1)
  with assms have "prefix a (allureRuntime s1)" "prefix (allureRuntime s1) (trace_of (f s1))"
    by simp_all
  with Inr show ?thesis by (auto intro: prefix_order.trans)
qed

lemma trace_invoke: "prefix (allureRuntime s) (trace_of (invoke env c s))"
  by (simp add: invoke_def Let_def)

lemma trace_await: "prefix (allureRuntime s) (trace_of (await env c s))"
  by (simp add: await_def Let_def)

lemma trace_openScope: "prefix (allureRuntime s) (trace_of (openScope env s))"
  unfolding openScope_def
  by (rule trace_andThen [OF trace_invoke]) simp

lemma trace_closeScope: "prefix (allureRuntime s) (trace_of (closeScope env s))"
  using trace_await [of "s\<lparr>scopesStack := butlast (scopesStack s)\<rparr>" env]
  by (simp add: closeScope_def pop_def Let_def split: option.splits)

lemma trace_writeLastTest: "prefix (allureRuntime s) (trace_of (writeLastTest env s))"
proof (cases "truthy (currentTestUuid s)")
  case False
  then show ?thesis by (auto simp: writeLastTest_def truthy_def split: option.splits)
next
  case True
  then obtain t where t: "currentTestUuid s = Some t" "t \<noteq> []"
    by (auto simp: truthy_def split: option.splits)
  have "prefix (allureRuntime s)
      (trace_of (andThen (closeScope env s)
         (\<lambda>s1. andThen (await env (WriteTest t) s1) (\<lambda>s2. Inr (s2\<lparr>currentTestUuid := None\<rparr>)))))"
    by (rule trace_andThen [OF trace_closeScope], rule trace_andThen [OF trace_await]) simp
  with t show ?thesis by (simp add: writeLastTest_def)
qed

lemma trace_maybe_write:
  "prefix (allureRuntime s) (trace_of (if b then writeLastTest env s else Inr s))"
  by (simp add: trace_writeLastTest)

lemma trace_startSuite: "prefix (allureRuntime s) (trace_of (startSuite env s))"
  unfolding startSuite_def
  by (rule trace_andThen [OF trace_maybe_write]) (rule trace_openScope)

lemma trace_endSuite: "prefix (allureRuntime s) (trace_of (endSuite env w s))"
  unfolding endSuite_def
  by (rule trace_andThen [OF trace_closeScope]) (rule trace_maybe_write)

lemma trace_startTest: "prefix (allureRuntime s) (trace_of (startTest env name start s))"
  unfolding startTest_def
  by (rule trace_andThen [OF trace_maybe_write], rule trace_andThen [OF trace_openScope],
      rule trace_andThen [OF trace_invoke]) (simp add: Let_def)

lemma trace_addTestInfo: "prefix (allureRuntime s) (trace_of (addTestInfo env fullName s))"
  by (simp add: addTestInfo_def trace_invoke split: option.splits)

lemma trace_startHook: "prefix (allureRuntime s) (trace_of (startHook env name ty start s))"
  unfolding startHook_def Let_def
  by (rule trace_andThen [OF trace_maybe_write], rule trace_andThen [OF trace_invoke])
     (simp split: option.splits)

lemma trace_endHook: "prefix (allureRuntime s) (trace_of (endHook env st details duration stop s))"
proof -
  have "\<And>s0 u. prefix (allureRuntime s0)
      (trace_of (andThen (invoke env (UpdateFixture u st details) s0)
                   (await env (StopFixture u stop duration))))"
    by (rule trace_andThen [OF trace_invoke]) (rule trace_await)
  from this [of "s\<lparr>fixturesStack := butlast (fixturesStack s)\<rparr>"] show ?thesis
    by (simp add: endHook_def pop_def Let_def split: option.splits)
qed

lemma trace_applyToCurrentTest:
  "prefix (allureRuntime s) (trace_of (applyToCurrentTest env m s))"
proof -
  have "\<And>s2 c. allureRuntime s2 = allureRuntime s \<Longrightarrow>
      prefix (allureRuntime s) (trace_of (await env c s2))"
    using trace_await by metis
  then show ?thesis
    by (simp add: applyToCurrentTest_def Let_def split: option.splits)
qed

lemma trace_closeOpenedSteps_loop:
  "closeOpenedSteps_loop env t st stop s = Some r \<Longrightarrow> prefix (allureRuntime s) (trace_of r)"
proof (induction "nat (openSteps s)" arbitrary: s)
  case 0
  then show ?case by (auto simp: closeOpenedSteps_loop_stop)
next
  case (Suc n)
  then have pos: "0 < openSteps s" by linarith
  let ?c = "ApplyRuntimeMessages t
      [StepStop st (case stop of Some x \<Rightarrow> x | None \<Rightarrow> now env (allureRuntime s)) None]"
  show ?case
  proof (cases "invoke env ?c s")
    case (Inl f)
    with pos Suc.prems have "r = invoke env ?c s"
      by (subst (asm) closeOpenedSteps_loop.simps) simp
    then show ?thesis by (simp add: trace_invoke)
  next
    case (Inr s1)
    then have s1: "s1 = s\<lparr>allureRuntime := allureRuntime s @ [?c]\<rparr>" by (rule invoke_Inr)
    let ?s2 = "s1\<lparr>openSteps := openSteps s1 - 1\<rparr>"
    from s1 Suc.hyps(2) have n: "n = nat (openSteps ?s2)" by simp
    from Suc.prems Inr pos have "closeOpenedSteps_loop env t st stop ?s2 = Some r"
      by (subst (asm) closeOpenedSteps_loop.simps) simp
    from Suc.hyps(1) [OF n this] have "prefix (allureRuntime ?s2) (trace_of r)" .
    moreover have "prefix (allureRuntime s) (allureRuntime ?s2)" by (simp add: s1)
    ultimately show ?thesis by (rule prefix_order.trans [rotated])
  qed
qed

lemma trace_endTest:
  assumes "endTest env st stage stop duration details w s = Some r"
  shows "prefix (allureRuntime s) (trace_of r)"
proof -
  let ?s0 = "s\<lparr>executablesStack := snd (pop (executablesStack s))\<rparr>"
  show ?thesis
  proof (cases "fst (pop (executablesStack s))")
    case None
    with assms show ?thesis by (auto simp: endTest_def Let_def split: prod.splits)
  next
    case (Some u)
    show ?thesis
    proof (cases "u = []")
      case True
      with Some assms show ?thesis by (auto simp: endTest_def Let_def split: prod.splits)
    next
      case False
      obtain r1 where r1: "closeOpenedSteps env st stop ?s0 = Some r1"
        using closeOpenedSteps_total by blast
      then have p1: "prefix (allureRuntime s) (trace_of r1)"
        by (auto simp: closeOpenedSteps_def dest: trace_closeOpenedSteps_loop
            split: option.splits if_splits)
      show ?thesis
      proof (cases r1)
        case (Inl f)
        with r1 Some False assms have "r = r1"
          by (auto simp: endTest_def Let_def split: prod.splits)
        with p1 show ?thesis by simp
      next
        case (Inr s1)
        let ?k = "andThen (invoke env (UpdateTest u (SetResult st stage details)) s1)
                    (\<lambda>s2. andThen (await env (StopTest u stop duration) s2)
                       (\<lambda>s3. if w then writeLastTest env s3 else Inr s3))"
        from r1 Inr Some False assms have r: "r = ?k"
          by (auto simp: endTest_def Let_def split: prod.splits)
        have "prefix (allureRuntime s1) (trace_of ?k)"
          by (rule trace_andThen [OF trace_invoke], rule trace_andThen [OF trace_await])
             (rule trace_maybe_write)
        with p1 Inr r show ?thesis by (auto intro: prefix_order.trans)
      qed
    qed
  qed
qed

lemma trace_processMessage:
  "processMessage env m l s = Some r \<Longrightarrow> prefix (allureRuntime s) (trace_of r)"
  by (cases m)
     (auto simp: trace_startSuite trace_endSuite trace_startTest trace_addTestInfo
        trace_startHook trace_endHook trace_applyToCurrentTest dest: trace_endTest)

lemma process_list_append:
  "process_list env (xs @ ys) fl s =
     (case process_list env xs (ys \<noteq> [] \<or> fl) s of
        None \<Rightarrow> None
      | Some r \<Rightarrow> (case r of Inl f \<Rightarrow> Some (Inl f) | Inr s' \<Rightarrow> process_list env ys fl s'))"
  by (induction xs arbitrary: s) (auto split: option.splits sum.splits)

text \<open>
  When the messages before position \<open>i\<close> have been processed and processing message \<open>i\<close>
  fails, \<open>processRuntimeMessage\<close> fails with that failure, whatever messages follow: none
  of them is processed, nothing is retried, and the calls made for the earlier messages
  are the beginning of the calls the failure carries.
\<close>

lemma replay_propagates_failure:
  assumes "messages s = pre @ m # post"
    and "process_list env pre True s = Some (Inr s1)"
    and "processMessage env m (post = []) s1 = Some (Inl (BackendFailure h))"
  shows "processRuntimeMessage env s = Some (Inl (BackendFailure h))
         \<and> prefix (allureRuntime s1) h"
proof -
  have "messages_loop env 0 s = process_list env (pre @ m # post) False s"
    using messages_loop_process_list [of 0 s env] assms(1) by simp
  also have "\<dots> = Some (Inl (BackendFailure h))"
    using assms(2,3) by (simp add: process_list_append)
  finally have "processRuntimeMessage env s = Some (Inl (BackendFailure h))"
    by (simp add: processRuntimeMessage_def)
  moreover from trace_processMessage [OF assms(3)] have "prefix (allureRuntime s1) h" by simp
  ultimately show ?thesis by simp
qed

section \<open>What a completed replay leaves open\<close>

text \<open>
  Claim C1, as amended. When \<open>processRuntimeMessage\<close> completes without a backend
  failure, the scope stack is empty and no test is current; the executable stack and
  the fixture stack are as the loop over the messages left them (what follows the
  loop pops neither).
\<close>

theorem replay_closes_scopes_and_current_test:
  assumes "processRuntimeMessage env s = Some (Inr s')"
  shows "scopesStack s' = [] \<and> \<not> truthy (currentTestUuid s')
         \<and> (case messages_loop env 0 s of
               Some (Inr s1) \<Rightarrow>
                 executablesStack s' = executablesStack s1 \<and> fixturesStack s' = fixturesStack s1
             | _ \<Rightarrow> False)"
proof -
  from assms obtain s1 s2 where
    loop: "messages_loop env 0 s = Some (Inr s1)"
    and fin: "(if truthy (currentTestUuid s1) then writeLastTest env s1 else Inr s1) = Inr s2"
    and drain: "closeScopes_loop env s2 = Some (Inr s')"
    by (auto simp: processRuntimeMessage_def split: option.splits sum.splits)
  from fin have cur: "\<not> truthy (currentTestUuid s2)"
    by (auto dest: writeLastTest_current split: if_splits)
  from fin have st: "executablesStack s2 = executablesStack s1 \<and> fixturesStack s2 = fixturesStack s1"
    by (auto dest: writeLastTest_stacks split: if_splits)
  from drain have "s' = s2\<lparr>scopesStack := [], allureRuntime := allureRuntime s'\<rparr>"
    by (rule closeScopes_loop_frame)
  then have "scopesStack s' = [] \<and> currentTestUuid s' = currentTestUuid s2
      \<and> executablesStack s' = executablesStack s2 \<and> fixturesStack s' = fixturesStack s2"
    by (cases s2, cases s', simp)
  with cur st loop show ?thesis by simp
qed

theorem replay_closes_scopes_and_current_test_witness:
  "(case processRuntimeMessage sample_env
           (new_state\<lparr>messages := [SuiteStart ''S'' None, TestStart ''T'' 0]\<rparr>) of
      Some (Inr s') \<Rightarrow>
        scopesStack s' = [] \<and> \<not> truthy (currentTestUuid s')
        \<and> executablesStack s' = [''test-iii''] \<and> fixturesStack s' = []
    | _ \<Rightarrow> False)"
proof -
  have run: "processRuntimeMessage sample_env
      (new_state\<lparr>messages := [SuiteStart ''S'' None, TestStart ''T'' 0]\<rparr>)
    = Some (Inr \<lparr>scopesStack = [], executablesStack = [''test-iii''],
          fixturesStack = [], currentTestUuid = None,
          messages = [SuiteStart ''S'' None, TestStart ''T'' 0],
          openSteps = 0,
          allureRuntime =
            [StartScope, StartScope, StartTest ''T'' 0 [''scope-i'', ''scope-ii''],
             WriteScope ''scope-ii'', WriteTest ''test-iii'', WriteScope ''scope-i'']\<rparr>)"
    by code_simp
  from replay_closes_scopes_and_current_test [OF run] show ?thesis
    by (simp add: run)
qed

text \<open>
  The claim as the specification states it fails: after the log test-start, hook-start
  the replay completes with the test still on the executable stack and the fixture
  still on the fixture stack.
\<close>

theorem replay_leaves_test_and_fixture_on_stacks:
  "(case processRuntimeMessage sample_env
           (new_state\<lparr>messages := [TestStart ''T'' 0, HookStart ''before each'' Before 1]\<rparr>) of
      Some (Inr s') \<Rightarrow>
        scopesStack s' = [] \<and> executablesStack s' = [''test-ii'']
        \<and> fixturesStack s' = [''fixture-iii'']
    | _ \<Rightarrow> False)"
  by code_simp

section \<open>A test started while another is open\<close>

text \<open>
  Claim C2. When a test-start message is processed while a test \<open>a\<close> is open and no
  backend call fails, the calls made are: the write of the top scope, \<open>writeTest a\<close>
  (no update of \<open>a\<close> before it, so \<open>a\<close> is written with the status it carried), and only
  then \<open>startScope\<close> and \<open>startTest\<close> for the new test. Afterwards the new test's handle
  is the current test and on top of the executable stack, and the open-step counter
  is 0.
\<close>

theorem test_start_finalizes_open_test:
  assumes "currentTestUuid s = Some a" and "a \<noteq> []"
    and "processMessage env (TestStart name start) lastMessage s = Some (Inr s')"
  shows "allureRuntime s' =
           allureRuntime s @ closeScope_calls s @
             [WriteTest a, StartScope, StartTest name start (scopesStack s')]
         \<and> currentTestUuid s' = Some (startTest_ret env (allureRuntime s'))
         \<and> executablesStack s' = executablesStack s @ [startTest_ret env (allureRuntime s')]
         \<and> openSteps s' = 0"
proof -
  from assms obtain s1 s2 s3 where
    w: "writeLastTest env s = Inr s1" and o: "openScope env s1 = Inr s2"
    and i: "invoke env (StartTest name start (scopesStack s2)) s2 = Inr s3"
    and s': "s' = s3\<lparr>executablesStack := executablesStack s3 @ [startTest_ret env (allureRuntime s3)],
                     currentTestUuid := Some (startTest_ret env (allureRuntime s3)),
                     openSteps := 0\<rparr>"
    by (auto simp: startTest_def andThen_def truthy_def Let_def split: sum.splits)
  from writeLastTest_trace [OF assms(1,2) w] have s1:
    "s1 = s\<lparr>scopesStack := butlast (scopesStack s), currentTestUuid := None,
            allureRuntime := allureRuntime s @ closeScope_calls s @ [WriteTest a]\<rparr>" .
  from o have s2: "s2 = s1\<lparr>allureRuntime := allureRuntime s1 @ [StartScope],
      scopesStack := scopesStack s1 @ [startScope_ret env (allureRuntime s1 @ [StartScope])]\<rparr>"
    by (auto simp: openScope_def andThen_def dest!: invoke_Inr split: sum.splits)
  from i have s3: "s3 = s2\<lparr>allureRuntime := allureRuntime s2 @ [StartTest name start (scopesStack s2)]\<rparr>"
    by (rule invoke_Inr)
  show ?thesis
    by (simp add: s' s3 s2 s1)
qed

theorem test_start_finalizes_open_test_witness:
  "currentTestUuid open_test_state = Some ''test-ii''
   \<and> (case processMessage sample_env (TestStart ''B'' 3) False open_test_state of
        Some (Inr s') \<Rightarrow>
          allureRuntime s' =
            allureRuntime open_test_state @
              [WriteScope ''scope-i'', WriteTest ''test-ii'', StartScope,
               StartTest ''B'' 3 [''scope-iiiiiii'']]
          \<and> currentTestUuid s' = Some ''test-iiiiiiii''
          \<and> executablesStack s' = [''test-ii'', ''test-iiiiiiii'']
          \<and> openSteps s' = 0
      | _ \<Rightarrow> False)"
proof -
  have cur: "currentTestUuid open_test_state = Some ''test-ii''"
    by (simp add: open_test_state_def)
  have run: "processMessage sample_env (TestStart ''B'' 3) False open_test_state
    = Some (Inr \<lparr>scopesStack = [''scope-iiiiiii''],
          executablesStack = [''test-ii'', ''test-iiiiiiii''],
          fixturesStack = [], currentTestUuid = Some ''test-iiiiiiii'',
          messages = [TestStart ''A'' 0, StepStart ''a'' 1, StepStart ''b'' 2, SuiteEnd],
          openSteps = 0,
          allureRuntime =
            [StartScope, StartTest ''A'' 0 [''scope-i''],
             ApplyRuntimeMessages ''test-ii'' [StepStart ''a'' 1],
             ApplyRuntimeMessages ''test-ii'' [StepStart ''b'' 2],
             WriteScope ''scope-i'', WriteTest ''test-ii'', StartScope,
             StartTest ''B'' 3 [''scope-iiiiiii'']]\<rparr>)"
    by code_simp
  from test_start_finalizes_open_test [OF cur _ run] cur show ?thesis
    unfolding run by (simp add: open_test_state_def)
qed

section \<open>A test ended with steps still open\<close>

text \<open>
  Claim C3, as amended. Let a test-end message with status \<open>st\<close> and stop time \<open>stop\<close> be
  processed in a state where it ends a test (the executable stack is not empty and the
  handle \<open>u\<close> on its top is a non-empty string), a test \<open>t\<close> is still the current test
  (\<open>_currentTestUuid\<close> is a non-empty string) and \<open>n > 0\<close> steps are open, and let no
  backend call fail. Then exactly \<open>n\<close> step-stop messages, each carrying \<open>st\<close> and \<open>stop\<close>,
  are applied to \<open>t\<close> before the ended test \<open>u\<close> is updated and stopped, and the open-step
  counter is 0 afterwards.
\<close>

theorem test_end_force_closes_open_steps:
  assumes "executablesStack s = rest @ [u]" and "u \<noteq> []"
    and "currentTestUuid s = Some t" and "t \<noteq> []"
    and "0 < openSteps s"
    and "processMessage env (TestEnd st stage (Some stop) duration details) lastMessage s
           = Some (Inr s')"
  shows "allureRuntime s' =
           allureRuntime s @
             replicate (nat (openSteps s)) (ApplyRuntimeMessages t [StepStop st stop None]) @
             [UpdateTest u (SetResult st stage details), StopTest u (Some stop) duration] @
             (if lastMessage then closeScope_calls s @ [WriteTest t] else [])
         \<and> openSteps s' = 0"
proof -
  let ?s0 = "s\<lparr>executablesStack := rest\<rparr>"
  from assms obtain s1 s2 s3 where
    c: "closeOpenedSteps_loop env t st (Some stop) ?s0 = Some (Inr s1)"
    and i: "invoke env (UpdateTest u (SetResult st stage details)) s1 = Inr s2"
    and a: "await env (StopTest u (Some stop) duration) s2 = Inr s3"
    and w: "(if lastMessage then writeLastTest env s3 else Inr s3) = Inr s'"
    by (auto simp: endTest_def closeOpenedSteps_def andThen_def Let_def
        split: sum.splits option.splits if_splits)
  from closeOpenedSteps_loop_trace [OF c] assms(5) have s1:
    "s1 = ?s0\<lparr>openSteps := 0,
            allureRuntime := allureRuntime s @
              replicate (nat (openSteps s)) (ApplyRuntimeMessages t [StepStop st stop None])\<rparr>"
    by (simp add: min_def)
  from i have s2: "s2 = s1\<lparr>allureRuntime := allureRuntime s1 @ [UpdateTest u (SetResult st stage details)]\<rparr>"
    by (rule invoke_Inr)
  from a have s3: "s3 = s2\<lparr>allureRuntime := allureRuntime s2 @ [StopTest u (Some stop) duration]\<rparr>"
    by (rule await_Inr)
  show ?thesis
  proof (cases lastMessage)
    case False
    with w have "s' = s3" by simp
    with False show ?thesis by (simp add: s3 s2 s1)
  next
    case True
    with w have w': "writeLastTest env s3 = Inr s'" by simp
    have cur: "currentTestUuid s3 = Some t" by (simp add: s3 s2 s1 assms(3))
    have cs: "closeScope_calls s3 = closeScope_calls s"
      by (simp add: s3 s2 s1 closeScope_calls_def)
    from writeLastTest_trace [OF cur assms(4) w'] cs True show ?thesis
      by (simp add: s3 s2 s1)
  qed
qed

theorem test_end_force_closes_open_steps_witness:
  "executablesStack open_test_state = [] @ [''test-ii'']
   \<and> currentTestUuid open_test_state = Some ''test-ii''
   \<and> openSteps open_test_state = 2
   \<and> (case processMessage sample_env (TestEnd Failed (Some Finished) (Some 9) (Some 9) None)
             False open_test_state of
        Some (Inr s') \<Rightarrow>
          allureRuntime s' =
            allureRuntime open_test_state @
              [ApplyRuntimeMessages ''test-ii'' [StepStop Failed 9 None],
               ApplyRuntimeMessages ''test-ii'' [StepStop Failed 9 None],
               UpdateTest ''test-ii'' (SetResult Failed (Some Finished) None),
               StopTest ''test-ii'' (Some 9) (Some 9)]
          \<and> openSteps s' = 0
      | _ \<Rightarrow> False)"
proof -
  have ex: "executablesStack open_test_state = [] @ [''test-ii'']"
    and cur: "currentTestUuid open_test_state = Some ''test-ii''"
    and n: "openSteps open_test_state = 2"
    by (simp_all add: open_test_state_def)
  have pos: "0 < openSteps open_test_state" by (simp add: n)
  have run: "processMessage sample_env (TestEnd Failed (Some Finished) (Some 9) (Some 9) None)
      False open_test_state
    = Some (Inr \<lparr>scopesStack = [''scope-i''], executablesStack = [],
          fixturesStack = [], currentTestUuid = Some ''test-ii'',
          messages = [TestStart ''A'' 0, StepStart ''a'' 1, StepStart ''b'' 2, SuiteEnd],
          openSteps = 0,
          allureRuntime =
            [StartScope, StartTest ''A'' 0 [''scope-i''],
             ApplyRuntimeMessages ''test-ii'' [StepStart ''a'' 1],
             ApplyRuntimeMessages ''test-ii'' [StepStart ''b'' 2],
             ApplyRuntimeMessages ''test-ii'' [StepStop Failed 9 None],
             ApplyRuntimeMessages ''test-ii'' [StepStop Failed 9 None],
             UpdateTest ''test-ii'' (SetResult Failed (Some Finished) None),
             StopTest ''test-ii'' (Some 9) (Some 9)]\<rparr>)"
    by code_simp
  from test_end_force_closes_open_steps [OF ex _ cur _ pos run] ex cur n show ?thesis
    unfolding run by (simp add: open_test_state_def)
qed

text \<open>
  The claim as the specification states it fails: in the log test-start, step-start,
  suite-start, test-end the suite-start message writes the test, so that no test is
  current when the test ends with its step still open. \<open>_closeOpenedSteps\<close> then returns
  at once: no step-stop message is applied and the open-step counter stays 1.
\<close>

theorem test_end_after_early_write_closes_no_step:
  "processRuntimeMessage sample_env
     (new_state\<lparr>messages :=
        [TestStart ''A'' 0, StepStart ''a'' 1, SuiteStart ''S'' None,
         TestEnd Failed None (Some 2) None None]\<rparr>)
   = Some (Inr \<lparr>scopesStack = [], executablesStack = [], fixturesStack = [],
          currentTestUuid = None,
          messages =
            [TestStart ''A'' 0, StepStart ''a'' 1, SuiteStart ''S'' None,
             TestEnd Failed None (Some 2) None None],
          openSteps = 1,
          allureRuntime =
            [StartScope, StartTest ''A'' 0 [''scope-i''],
             ApplyRuntimeMessages ''test-ii'' [StepStart ''a'' 1],
             WriteScope ''scope-i'', WriteTest ''test-ii'', StartScope,
             UpdateTest ''test-ii'' (SetResult Failed None None),
             StopTest ''test-ii'' (Some 2) None,
             WriteScope ''scope-iiiiii'']\<rparr>)"
  by code_simp

text \<open>
  The executable stack must hold a test to end: in the log test-start, test-end,
  step-start, test-end, metadata the first test-end message pops the test but leaves it
  current, so the step-start message opens a step; at the second test-end message the
  stack is empty, \<open>_endTest\<close> returns at once, no step-stop message is applied and the
  open-step counter stays 1.
\<close>

lemma test_end_on_empty_stack_closes_no_step:
  "process_list sample_env
     [TestStart ''A'' 0, TestEnd Passed None (Some 1) None None, StepStart ''a'' 2] True
     (new_state\<lparr>messages :=
        [TestStart ''A'' 0, TestEnd Passed None (Some 1) None None, StepStart ''a'' 2,
         TestEnd Failed None (Some 3) None None, Metadata ''m'']\<rparr>)
   = Some (Inr \<lparr>scopesStack = [''scope-i''], executablesStack = [],
          fixturesStack = [], currentTestUuid = Some ''test-ii'',
          messages =
            [TestStart ''A'' 0, TestEnd Passed None (Some 1) None None, StepStart ''a'' 2,
             TestEnd Failed None (Some 3) None None, Metadata ''m''],
          openSteps = 1,
          allureRuntime =
            [StartScope, StartTest ''A'' 0 [''scope-i''],
             UpdateTest ''test-ii'' (SetResult Passed None None),
             StopTest ''test-ii'' (Some 1) None,
             ApplyRuntimeMessages ''test-ii'' [StepStart ''a'' 2]]\<rparr>)
   \<and> processRuntimeMessage sample_env
     (new_state\<lparr>messages :=
        [TestStart ''A'' 0, TestEnd Passed None (Some 1) None None, StepStart ''a'' 2,
         TestEnd Failed None (Some 3) None None, Metadata ''m'']\<rparr>)
   = Some (Inr \<lparr>scopesStack = [], executablesStack = [], fixturesStack = [],
          currentTestUuid = None,
          messages =
            [TestStart ''A'' 0, TestEnd Passed None (Some 1) None None, StepStart ''a'' 2,
             TestEnd Failed None (Some 3) None None, Metadata ''m''],
          openSteps = 1,
          allureRuntime =
            [StartScope, StartTest ''A'' 0 [''scope-i''],
             UpdateTest ''test-ii'' (SetResult Passed None None),
             StopTest ''test-ii'' (Some 1) None,
             ApplyRuntimeMessages ''test-ii'' [StepStart ''a'' 2],
             ApplyRuntimeMessages ''test-ii'' [Metadata ''m''],
             WriteScope ''scope-i'', WriteTest ''test-ii'']\<rparr>)"
  by code_simp

section \<open>The round trip of one suite with one test and one step\<close>

text \<open>
  Claim C4, as amended. On a runtime whose calls all return and whose scope and test
  handles are non-empty strings, replaying the log suite-start, test-start, step-start,
  step-stop, test-end, suite-end makes exactly the ten calls below: two scopes are
  written (the scope opened for the test, then the scope opened for the suite), one test
  is written, the open-step counter is 0, and exactly the step-start and the step-stop
  message are applied to the test.
\<close>

theorem round_trip_log:
  assumes ok: "\<forall>h. settles env h = Returns"
    and sc: "\<forall>h. startScope_ret env h \<noteq> []"
    and te: "\<forall>h. startTest_ret env h \<noteq> []"
  shows
    "let log = [SuiteStart sn f, TestStart tn t0, StepStart pn t1, StepStop pst t2 pd,
                TestEnd st stage stop dur det, SuiteEnd];
         a = startScope_ret env [StartScope];
         b = startScope_ret env [StartScope, StartScope];
         t = startTest_ret env [StartScope, StartScope, StartTest tn t0 [a, b]];
         calls = [StartScope, StartScope, StartTest tn t0 [a, b],
                  ApplyRuntimeMessages t [StepStart pn t1],
                  ApplyRuntimeMessages t [StepStop pst t2 pd],
                  UpdateTest t (SetResult st stage det), StopTest t stop dur,
                  WriteScope b, WriteScope a, WriteTest t]
     in processRuntimeMessage env (new_state\<lparr>messages := log\<rparr>)
          = Some (Inr (new_state\<lparr>messages := log, allureRuntime := calls\<rparr>))
        \<and> filter is_writeScope calls = [WriteScope b, WriteScope a]
        \<and> filter is_writeTest calls = [WriteTest t]
        \<and> applied_to t calls = [StepStart pn t1, StepStop pst t2 pd]
        \<and> openSteps (new_state\<lparr>messages := log, allureRuntime := calls\<rparr>) = 0"
proof -
  have inv: "\<And>c s. invoke env c s = Inr (s\<lparr>allureRuntime := allureRuntime s @ [c]\<rparr>)"
    using ok by (simp add: invoke_def)
  have aw: "\<And>c s. await env c s = Inr (s\<lparr>allureRuntime := allureRuntime s @ [c]\<rparr>)"
    using ok by (simp add: await_def)
  have loop: "\<And>s. messages_loop env 0 s = process_list env (messages s) False s"
    using messages_loop_process_list [of 0] by simp
  show ?thesis
    using sc te
    by (simp add: Let_def processRuntimeMessage_def loop new_state_def
        startSuite_def endSuite_def startTest_def endTest_def openScope_def closeScope_def
        writeLastTest_def closeOpenedSteps_def closeOpenedSteps_loop_stop
        applyToCurrentTest_def truthy_def inv aw closeScopes_loop_stop pop_def)
qed

theorem round_trip_log_witness:
  "(\<forall>h. settles sample_env h = Returns)
   \<and> (\<forall>h. startScope_ret sample_env h \<noteq> [])
   \<and> (\<forall>h. startTest_ret sample_env h \<noteq> [])
   \<and> processRuntimeMessage sample_env
        (new_state\<lparr>messages :=
           [SuiteStart ''S'' None, TestStart ''T'' 0, StepStart ''a'' 1, StepStop Passed 2 None,
            TestEnd Passed None (Some 3) None None, SuiteEnd]\<rparr>)
      = Some (Inr (new_state
          \<lparr>messages :=
             [SuiteStart ''S'' None, TestStart ''T'' 0, StepStart ''a'' 1, StepStop Passed 2 None,
              TestEnd Passed None (Some 3) None None, SuiteEnd],
           allureRuntime :=
             [StartScope, StartScope, StartTest ''T'' 0 [''scope-i'', ''scope-ii''],
              ApplyRuntimeMessages ''test-iii'' [StepStart ''a'' 1],
              ApplyRuntimeMessages ''test-iii'' [StepStop Passed 2 None],
              UpdateTest ''test-iii'' (SetResult Passed None None),
              StopTest ''test-iii'' (Some 3) None,
              WriteScope ''scope-ii'', WriteScope ''scope-i'', WriteTest ''test-iii'']\<rparr>))"
proof -
  have ok: "\<forall>h. settles sample_env h = Returns"
    and sc: "\<forall>h. startScope_ret sample_env h \<noteq> []"
    and te: "\<forall>h. startTest_ret sample_env h \<noteq> []"
    by (simp_all add: sample_env_def fresh_def)
  from round_trip_log [OF ok sc te, of "''S''" None "''T''" 0 "''a''" 1 Passed 2 None
      Passed None "Some 3" None None] ok sc te
  show ?thesis
    by (simp add: Let_def sample_env_def fresh_def)
qed

text \<open>
  The claim as the specification states it fails: the replay of that log writes two
  scopes, not one.
\<close>

theorem round_trip_writes_two_scopes:
  "(case processRuntimeMessage sample_env
           (new_state\<lparr>messages :=
              [SuiteStart ''S'' None, TestStart ''T'' 0, StepStart ''a'' 1, StepStop Passed 2 None,
               TestEnd Passed None (Some 3) None None, SuiteEnd]\<rparr>) of
      Some (Inr s') \<Rightarrow>
        filter is_writeScope (allureRuntime s') = [WriteScope ''scope-ii'', WriteScope ''scope-i'']
    | _ \<Rightarrow> False)"
  by code_simp

section \<open>The pending predicates\<close>

text \<open>
  Claim C5. Each of \<open>hasPendingSuite\<close>, \<open>hasPendingTest\<close>, \<open>hasPendingStep\<close> and
  \<open>hasPendingHook\<close> is true exactly when the last index of its start kind is greater
  than the last index of its end kind (\<open>-1\<close> for a kind the log does not hold), that is,
  when a start exists with no later end. \<open>hasPendingTest\<close> is true right after a
  test-start message is pushed, and false right after a test-end message is pushed,
  whatever the log held before.
\<close>

theorem pending_predicates:
  "hasPendingSuite s =
     (spec_last_index ''allure:suite:start'' (messages s)
        > spec_last_index ''allure:suite:end'' (messages s))
   \<and> hasPendingTest s =
     (spec_last_index ''allure:test:start'' (messages s)
        > spec_last_index ''allure:test:end'' (messages s))
   \<and> hasPendingStep s =
     (spec_last_index ''step_start'' (messages s) > spec_last_index ''step_stop'' (messages s))
   \<and> hasPendingHook s =
     (spec_last_index ''allure:hook:start'' (messages s)
        > spec_last_index ''allure:hook:end'' (messages s))
   \<and> hasPendingSuite s = spec_pending ''allure:suite:start'' ''allure:suite:end'' (messages s)
   \<and> hasPendingTest s = spec_pending ''allure:test:start'' ''allure:test:end'' (messages s)
   \<and> hasPendingStep s = spec_pending ''step_start'' ''step_stop'' (messages s)
   \<and> hasPendingHook s = spec_pending ''allure:hook:start'' ''allure:hook:end'' (messages s)
   \<and> hasPendingTest (pushRuntimeMessage (TestStart name start) s)
   \<and> \<not> hasPendingTest (pushRuntimeMessage (TestEnd st stage stop duration details) s)"
proof -
  have idx: "\<And>k. findLastIndex (messages s) (\<lambda>m. msg_type m = k) = spec_last_index k (messages s)"
    by (rule findLastIndex_spec)
  have pend: "\<And>a b. a \<noteq> b \<Longrightarrow>
      (findLastIndex (messages s) (\<lambda>m. msg_type m = b)
         < findLastIndex (messages s) (\<lambda>m. msg_type m = a))
      = spec_pending a b (messages s)"
    unfolding spec_pending_def
    by (rule findLastIndex_less_iff) simp
  have b: "\<And>p. findLastIndex (messages s) p < int (length (messages s))"
    using findLastIndex_bounds by blast
  have 1: "hasPendingTest (pushRuntimeMessage (TestStart name start) s)"
    using b by (simp add: hasPendingTest_def pushRuntimeMessage_def findLastIndex_snoc)
  have 2: "\<not> hasPendingTest (pushRuntimeMessage (TestEnd st stage stop duration details) s)"
    using b [of "\<lambda>m. msg_type m = ''allure:test:start''"]
    by (simp add: hasPendingTest_def pushRuntimeMessage_def findLastIndex_snoc)
  have 3: "hasPendingSuite s = spec_pending ''allure:suite:start'' ''allure:suite:end'' (messages s)"
    using pend [of "''allure:suite:start''" "''allure:suite:end''"]
    by (simp add: hasPendingSuite_def)
  have 4: "hasPendingTest s = spec_pending ''allure:test:start'' ''allure:test:end'' (messages s)"
    using pend [of "''allure:test:start''" "''allure:test:end''"]
    by (simp add: hasPendingTest_def)
  have 5: "hasPendingStep s = spec_pending ''step_start'' ''step_stop'' (messages s)"
    using pend [of "''step_start''" "''step_stop''"]
    by (simp add: hasPendingStep_def)
  have 6: "hasPendingHook s = spec_pending ''allure:hook:start'' ''allure:hook:end'' (messages s)"
    using pend [of "''allure:hook:start''" "''allure:hook:end''"]
    by (simp add: hasPendingHook_def)
  show ?thesis
    using 1 2 3 4 5 6
    by (simp add: hasPendingSuite_def hasPendingTest_def hasPendingStep_def hasPendingHook_def idx)
qed

section \<open>The current feature\<close>

text \<open>
  Claim C6, as amended. \<open>currentFeature\<close> returns the name carried by the most recent
  suite-start message whose payload marks it as a feature, whether or not a suite-end
  message follows it, and \<open>undefined\<close> when the log holds no suite-start message marked
  as a feature.
\<close>

theorem currentFeature_last_feature_suite:
  "(messages s = pre @ SuiteStart name (Some True) # post \<and> \<not> list_ex feature_flag post
      \<longrightarrow> currentFeature s = Some name)
   \<and> (\<not> list_ex feature_flag (messages s) \<longrightarrow> currentFeature s = None)"
proof -
  let ?P = "\<lambda>m. msg_type m = ''allure:suite:start'' \<and> feature_flag m"
  have a: "currentFeature s = Some name"
    if ms: "messages s = pre @ SuiteStart name (Some True) # post"
      and np: "\<not> list_ex feature_flag post"
  proof -
    from np have "\<not> list_ex ?P post" by (auto simp: list_ex_iff)
    then have "findLastIndex ([SuiteStart name (Some True)] @ post) ?P = 0"
      unfolding findLastIndex_append
      by (simp add: findLastIndex_def)
    then have "findLastIndex (messages s) ?P = int (length pre)"
      using ms findLastIndex_append [of pre "SuiteStart name (Some True) # post" ?P]
      by simp
    with ms show ?thesis
      by (simp add: currentFeature_def findLast_def)
  qed
  have b: "currentFeature s = None" if nf: "\<not> list_ex feature_flag (messages s)"
  proof -
    from nf have "\<not> list_ex ?P (messages s)" by (auto simp: list_ex_iff)
    then have "findLastIndex (messages s) ?P = - 1"
      using findLastIndex_append [of "[]" "messages s" ?P] by simp
    then show ?thesis
      by (simp add: currentFeature_def findLast_def)
  qed
  from a b show ?thesis by blast
qed

theorem currentFeature_last_feature_suite_witness:
  "\<not> list_ex feature_flag [SuiteEnd, SuiteStart ''scenario'' None]
   \<and> currentFeature
       (new_state\<lparr>messages := [] @ SuiteStart ''F'' (Some True) # [SuiteEnd, SuiteStart ''scenario'' None]\<rparr>)
     = Some ''F''
   \<and> \<not> list_ex feature_flag [SuiteStart ''scenario'' None, SuiteEnd]
   \<and> currentFeature (new_state\<lparr>messages := [SuiteStart ''scenario'' None, SuiteEnd]\<rparr>) = None"
  using currentFeature_last_feature_suite
          [of "new_state\<lparr>messages := [] @ SuiteStart ''F'' (Some True) # [SuiteEnd, SuiteStart ''scenario'' None]\<rparr>"
              "[]" "''F''" "[SuiteEnd, SuiteStart ''scenario'' None]"]
        currentFeature_last_feature_suite
          [of "new_state\<lparr>messages := [SuiteStart ''scenario'' None, SuiteEnd]\<rparr>"]
  by (simp add: new_state_def)

text \<open>
  The claim as the specification states it fails: once the feature suite has ended (no
  suite is pending), \<open>currentFeature\<close> still returns its name.
\<close>

theorem currentFeature_after_feature_suite_ended:
  "\<not> hasPendingSuite (new_state\<lparr>messages := [SuiteStart ''F'' (Some True), SuiteEnd]\<rparr>)
   \<and> currentFeature (new_state\<lparr>messages := [SuiteStart ''F'' (Some True), SuiteEnd]\<rparr>) = Some ''F''"
  by code_simp

section \<open>An after-all hook started while a test is open\<close>

text \<open>
  Claim C7. When a hook-start message whose name matches \<open>/after all/i\<close> is processed
  while a test \<open>t\<close> is open, and no backend call fails, the open test is written before
  the fixture is started: the calls made are the write of the top scope, \<open>writeTest t\<close>
  and then \<open>startFixture\<close>.
\<close>

theorem after_all_hook_finalizes_open_test:
  assumes "after_all name" and "currentTestUuid s = Some t" and "t \<noteq> []"
    and "processMessage env (HookStart name ty start) lastMessage s = Some (Inr s')"
  shows "allureRuntime s' =
           allureRuntime s @ closeScope_calls s @
             [WriteTest t, StartFixture (last_elem (butlast (scopesStack s))) ty name start]
         \<and> currentTestUuid s' = None"
proof -
  from assms obtain s1 s2 where
    w: "writeLastTest env s = Inr s1"
    and i: "invoke env (StartFixture (last_elem (scopesStack s1)) ty name start) s1 = Inr s2"
    and s': "s' = s2 \<or> (\<exists>h. s' = s2\<lparr>fixturesStack := fixturesStack s2 @ [h]\<rparr>)"
    by (auto simp: startHook_def andThen_def truthy_def Let_def
        split: sum.splits option.splits if_splits)
  from writeLastTest_trace [OF assms(2,3) w] have s1:
    "s1 = s\<lparr>scopesStack := butlast (scopesStack s), currentTestUuid := None,
            allureRuntime := allureRuntime s @ closeScope_calls s @ [WriteTest t]\<rparr>" .
  from i have s2: "s2 = s1\<lparr>allureRuntime :=
      allureRuntime s1 @ [StartFixture (last_elem (scopesStack s1)) ty name start]\<rparr>"
    by (rule invoke_Inr)
  from s' show ?thesis
    by (auto simp: s2 s1)
qed

theorem after_all_hook_finalizes_open_test_witness:
  "after_all ''\"AFTER ALL\" hook for suite''
   \<and> currentTestUuid open_test_state = Some ''test-ii''
   \<and> (case processMessage sample_env (HookStart ''\"AFTER ALL\" hook for suite'' After 3)
             False open_test_state of
        Some (Inr s') \<Rightarrow>
          allureRuntime s' =
            allureRuntime open_test_state @
              [WriteScope ''scope-i'', WriteTest ''test-ii'',
               StartFixture None After ''\"AFTER ALL\" hook for suite'' 3]
          \<and> currentTestUuid s' = None
      | _ \<Rightarrow> False)"
proof -
  have aa: "after_all ''\"AFTER ALL\" hook for suite''"
    by (simp add: after_all_def lower_def)
  have cur: "currentTestUuid open_test_state = Some ''test-ii''"
    by (simp add: open_test_state_def)
  have run: "processMessage sample_env (HookStart ''\"AFTER ALL\" hook for suite'' After 3)
      False open_test_state
    = Some (Inr \<lparr>scopesStack = [], executablesStack = [''test-ii''],
          fixturesStack = [], currentTestUuid = None,
          messages = [TestStart ''A'' 0, StepStart ''a'' 1, StepStart ''b'' 2, SuiteEnd],
          openSteps = 2,
          allureRuntime =
            [StartScope, StartTest ''A'' 0 [''scope-i''],
             ApplyRuntimeMessages ''test-ii'' [StepStart ''a'' 1],
             ApplyRuntimeMessages ''test-ii'' [StepStart ''b'' 2],
             WriteScope ''scope-i'', WriteTest ''test-ii'',
             StartFixture None After ''\"AFTER ALL\" hook for suite'' 3]\<rparr>)"
    by code_simp
  from after_all_hook_finalizes_open_test [OF aa cur _ run] aa cur show ?thesis
    unfolding run by (simp add: open_test_state_def)
qed

section \<open>End messages without a matching start\<close>

text \<open>
  Claim C8. Processing a test-end message when the executable stack is empty, or a
  hook-end message when the fixture stack is empty, raises nothing and returns the
  state as it was: the stacks, the open-step counter, the current test and the log of
  backend calls are unchanged (so no backend call is made). Popping an empty stack
  yields \<open>undefined\<close> and leaves the stack empty.
\<close>

theorem end_without_start_is_noop:
  "(executablesStack s = [] \<longrightarrow>
      processMessage env (TestEnd st stage stop duration details) lastMessage s = Some (Inr s))
   \<and> (fixturesStack s = [] \<longrightarrow>
      processMessage env (HookEnd st details stop duration) lastMessage s = Some (Inr s))
   \<and> pop ([] :: uuid list) = (None, [])"
  by (simp add: endTest_def endHook_def state_stack_same)

theorem end_without_start_is_noop_witness:
  "executablesStack new_state = [] \<and> fixturesStack new_state = []
   \<and> processMessage sample_env (TestEnd Passed None (Some 5) None None) True new_state
       = Some (Inr new_state)
   \<and> processMessage sample_env (HookEnd Failed None (Some 5) None) False new_state
       = Some (Inr new_state)"
  using end_without_start_is_noop [of new_state sample_env Passed None "Some 5" None None True]
        end_without_start_is_noop [of new_state sample_env Failed None "Some 5" None None False]
  by (simp add: new_state_def)

section \<open>A rejected backend operation\<close>

text \<open>
  Claim C9. A backend operation that rejects while message \<open>i\<close> is processed should make
  the replay reject, with no message after \<open>i\<close> processed. In \<open>_closeOpenedSteps\<close> the
  call of \<open>applyRuntimeMessages\<close> is not awaited, so the code does not do this there: on
  the log test-start, step-start, test-end, suite-start, with a runtime whose promise
  for the forced \<open>step_stop\<close> rejects, the replay completes, having gone on to update,
  stop and write the test and to process the suite-start message after it.
\<close>

theorem rejected_forced_step_stop_is_dropped:
  "settles rejecting_env
     [StartScope, StartTest ''A'' 0 [''scope-i''],
      ApplyRuntimeMessages ''test-ii'' [StepStart ''a'' 1],
      ApplyRuntimeMessages ''test-ii'' [StepStop Failed 2 None]] = Rejects
   \<and> processRuntimeMessage rejecting_env
       (new_state\<lparr>messages :=
          [TestStart ''A'' 0, StepStart ''a'' 1, TestEnd Failed None (Some 2) None None,
           SuiteStart ''next'' None]\<rparr>)
     = Some (Inr (new_state
         \<lparr>messages :=
            [TestStart ''A'' 0, StepStart ''a'' 1, TestEnd Failed None (Some 2) None None,
             SuiteStart ''next'' None],
          allureRuntime :=
            [StartScope, StartTest ''A'' 0 [''scope-i''],
             ApplyRuntimeMessages ''test-ii'' [StepStart ''a'' 1],
             ApplyRuntimeMessages ''test-ii'' [StepStop Failed 2 None],
             UpdateTest ''test-ii'' (SetResult Failed None None),
             StopTest ''test-ii'' (Some 2) None,
             WriteScope ''scope-i'', WriteTest ''test-ii'', StartScope,
             WriteScope ''scope-iiiiiiiii'']\<rparr>))"
  by code_simp

text \<open>
  Where the same operation is awaited (the \<open>step_stop\<close> message itself, forwarded at the
  end of the loop body), the same rejection does end the replay.
\<close>

lemma rejected_step_stop_propagates_when_awaited:
  "processRuntimeMessage rejecting_env
       (new_state\<lparr>messages :=
          [TestStart ''A'' 0, StepStart ''a'' 1, StepStop Failed 2 None,
           TestEnd Failed None (Some 2) None None]\<rparr>)
     = Some (Inl (BackendFailure
          [StartScope, StartTest ''A'' 0 [''scope-i''],
           ApplyRuntimeMessages ''test-ii'' [StepStart ''a'' 1],
           ApplyRuntimeMessages ''test-ii'' [StepStop Failed 2 None]]))"
  by code_simp

section \<open>Termination of the replay\<close>

text \<open>
  Claim C10. For every log and every state, \<open>processRuntimeMessage\<close> returns (with a
  state or with a backend failure), and so does each of its three loops: the loop over
  the messages, the loop of \<open>_closeOpenedSteps\<close> and the final loop that closes the
  scopes. The loop over the messages processes the messages of the log in order, each
  exactly once.
\<close>

theorem replay_terminates:
  "(\<exists>r. processRuntimeMessage env s = Some r)
   \<and> (\<exists>r. messages_loop env i s = Some r)
   \<and> (\<exists>r. closeOpenedSteps_loop env t st stop s = Some r)
   \<and> (\<exists>r. closeScopes_loop env s = Some r)
   \<and> messages_loop env 0 s = process_list env (messages s) False s"
proof -
  obtain r where r: "messages_loop env 0 s = Some r"
    using messages_loop_total by blast
  have "\<exists>r. processRuntimeMessage env s = Some r"
    using r closeScopes_loop_total
    by (auto simp: processRuntimeMessage_def split: sum.splits)
  moreover have "messages_loop env 0 s = process_list env (messages s) False s"
    using messages_loop_process_list [of 0 s env] by simp
  ultimately show ?thesis
    using messages_loop_total closeOpenedSteps_loop_total closeScopes_loop_total by blast
qed

end
